theory Spec2Isabelle
  imports Complex_Main
begin

section \<open>Python strings\<close>

text \<open>
  Text is a \<^typ>\<open>string\<close>. The alphabet of the model is ASCII: on ASCII text
  Python's \<open>\d\<close> is \<open>[0-9]\<close> and \<open>\w\<close> is \<open>[A-Za-z0-9_]\<close>; the Unicode digits and
  letters that \<open>re\<close> accepts in addition are outside the model.
\<close>

text \<open>\<open>str.replace(old, new)\<close>: all non-overlapping occurrences, left to right.\<close>

function str_replace :: "string \<Rightarrow> string \<Rightarrow> string \<Rightarrow> string" where
  "str_replace old new [] = (if old = [] then new else [])"
| "str_replace old new (c # cs) =
     (if old = [] then new @ c # str_replace old new cs
      else if take (length old) (c # cs) = old
        then new @ str_replace old new (drop (length old) (c # cs))
      else c # str_replace old new cs)"
  by pat_completeness auto
termination
  by (relation "measure (\<lambda>(old, new, s). length s)") (auto simp: Suc_le_eq)

text \<open>\<open>sep.join(xs)\<close>.\<close>

fun str_join :: "string \<Rightarrow> string list \<Rightarrow> string" where
  "str_join sep [] = []"
| "str_join sep [x] = x"
| "str_join sep (x # y # ys) = x @ sep @ str_join sep (y # ys)"

section \<open>Regular expressions of the \<open>re\<close> module\<close>

text \<open>
  The constructs the patterns of \<open>ria.py\<close> use. \<open>Cls\<close> is a bracket class listing its
  members, \<open>NCls\<close> a negated one (\<open>[^0-9]\<close> is \<open>NCls ''0123456789''\<close>), \<open>Rep r lo hi\<close>
  the greedy \<open>r{lo,hi}\<close>, \<open>Grp\<close> a capturing group, \<open>Ahead\<close> is \<open>(?=r)\<close>,
  \<open>NotAhead\<close> is \<open>(?!r)\<close> and \<open>NotBehind\<close> is \<open>(?<!r)\<close> for an \<open>r\<close> one character wide.
\<close>

datatype regex =
    Eps
  | Lit char
  | Cls string
  | NCls string
  | Digit
  | Word
  | Seq regex regex
  | Rep regex nat nat
  | Grp regex
  | Ahead regex
  | NotAhead regex
  | NotBehind regex

definition is_digit :: "char \<Rightarrow> bool" where
  "is_digit c = (c \<in> set ''0123456789'')"

definition is_word :: "char \<Rightarrow> bool" where
  "is_word c =
     (c \<in> set ''abcdefghijklmnopqrstuvwxyzABCDEFGHIJKLMNOPQRSTUVWXYZ0123456789_'')"

text \<open>
  A matcher state: the groups captured so far, the character before the current
  position (\<open>None\<close> at the start of the text) and the text from the current position on.
\<close>

type_synonym mstate = "string list \<times> char option \<times> string"

definition one :: "(char \<Rightarrow> bool) \<Rightarrow> mstate \<Rightarrow> mstate list" where
  "one P st =
     (case st of (caps, p, s) \<Rightarrow>
        (case s of [] \<Rightarrow> [] | c # cs \<Rightarrow> if P c then [(caps, Some c, cs)] else []))"

text \<open>
  \<open>ms r st\<close> lists every way \<open>r\<close> can match at \<open>st\<close>, in the order in which the
  backtracking matcher tries them (a greedy repeat tries one more iteration before it
  tries to stop). The match \<open>re\<close> reports is the first of the list.
\<close>

fun rsize :: "regex \<Rightarrow> nat" where
  "rsize (Seq a b) = Suc (rsize a + rsize b)"
| "rsize (Rep r lo hi) = Suc (rsize r + hi)"
| "rsize (Grp r) = Suc (rsize r)"
| "rsize (Ahead r) = Suc (rsize r)"
| "rsize (NotAhead r) = Suc (rsize r)"
| "rsize (NotBehind r) = Suc (rsize r)"
| "rsize _ = 0"

function ms :: "regex \<Rightarrow> mstate \<Rightarrow> mstate list" where
  "ms Eps st = [st]"
| "ms (Lit a) st = one (\<lambda>c. c = a) st"
| "ms (Cls cs) st = one (\<lambda>c. c \<in> set cs) st"
| "ms (NCls cs) st = one (\<lambda>c. c \<notin> set cs) st"
| "ms Digit st = one is_digit st"
| "ms Word st = one is_word st"
| "ms (Seq a b) st = concat (map (ms b) (ms a st))"
| "ms (Rep r lo 0) st = (if lo = 0 then [st] else [])"
| "ms (Rep r lo (Suc hi)) st =
     concat (map (ms (Rep r (lo - 1) hi)) (ms r st)) @ (if lo = 0 then [st] else [])"
| "ms (Grp r) st =
     map (\<lambda>st'. (fst st' @ [take (length (snd (snd st)) - length (snd (snd st'))) (snd (snd st))],
                 snd st'))
       (ms r st)"
| "ms (Ahead r) st = (if ms r st = [] then [] else [st])"
| "ms (NotAhead r) st = (if ms r st = [] then [st] else [])"
| "ms (NotBehind r) st =
     (case fst (snd st) of
        None \<Rightarrow> [st]
      | Some c \<Rightarrow> if ms r (fst st, None, [c]) = [] then [st] else [])"
  by pat_completeness auto
termination
  by (relation "measure (\<lambda>(r, st). rsize r)") auto

definition match_at :: "regex \<Rightarrow> char option \<Rightarrow> string \<Rightarrow> mstate option" where
  "match_at r p s = (case ms r ([], p, s) of [] \<Rightarrow> None | x # _ \<Rightarrow> Some x)"

text \<open>A match object: \<open>m.group(0)\<close> and \<open>m.groups()\<close>.\<close>

datatype rmatch = Match (group0: string) (groups: "string list")

text \<open>
  The scan of \<open>Pattern.sub\<close> and \<open>Pattern.subn\<close> with a callable replacement \<open>cb\<close>
  that may update a state: the leftmost match from the current position is replaced
  and the scan goes on behind it. The branch for a match that consumes nothing copies
  one character and moves on; no pattern of this program can match the empty string,
  so that branch is never taken (\<open>rule_match_consumes\<close>, \<open>doc_id_match_consumes\<close>).
\<close>

function sub_loop ::
  "regex \<Rightarrow> ('st \<Rightarrow> rmatch \<Rightarrow> string \<times> 'st) \<Rightarrow> 'st \<Rightarrow> char option \<Rightarrow> string
     \<Rightarrow> string \<times> nat \<times> 'st" where
  "sub_loop r cb st p s =
     (case match_at r p s of
        None \<Rightarrow>
          (case s of
             [] \<Rightarrow> ([], 0, st)
           | c # cs \<Rightarrow>
               (case sub_loop r cb st (Some c) cs of (out, n, st') \<Rightarrow> (c # out, n, st')))
      | Some x \<Rightarrow>
          (case cb st (Match (take (length s - length (snd (snd x))) s) (fst x)) of
             (rep, st1) \<Rightarrow>
               if length (snd (snd x)) < length s
               then (case sub_loop r cb st1 (fst (snd x)) (snd (snd x)) of
                       (out, n, st2) \<Rightarrow> (rep @ out, Suc n, st2))
               else (case s of
                       [] \<Rightarrow> (rep, 1, st1)
                     | c # cs \<Rightarrow>
                         (case sub_loop r cb st1 (Some c) cs of
                            (out, n, st2) \<Rightarrow> (rep @ c # out, Suc n, st2)))))"
  by pat_completeness auto
termination
  by (relation "measure (\<lambda>(r, cb, st, p, s). length s)") auto

text \<open>\<open>pat.subn(repl, text)\<close> for a replacement string without backslashes.\<close>

definition subn :: "regex \<Rightarrow> string \<Rightarrow> string \<Rightarrow> string \<times> nat" where
  "subn r repl text =
     (case sub_loop r (\<lambda>st m. (repl, st)) () None text of (out, n, _) \<Rightarrow> (out, n))"

text \<open>\<open>pat.sub(f, text)\<close> for a function \<open>f\<close> that updates the state \<open>st\<close>.\<close>

definition sub_with ::
  "regex \<Rightarrow> ('st \<Rightarrow> rmatch \<Rightarrow> string \<times> 'st) \<Rightarrow> 'st \<Rightarrow> string \<Rightarrow> string \<times> 'st" where
  "sub_with r cb st text = (case sub_loop r cb st None text of (out, n, st') \<Rightarrow> (out, st'))"

text \<open>\<open>pat.finditer(text)\<close>: the matches the scan visits, in order.\<close>

function find_loop :: "regex \<Rightarrow> char option \<Rightarrow> string \<Rightarrow> rmatch list" where
  "find_loop r p s =
     (case match_at r p s of
        None \<Rightarrow> (case s of [] \<Rightarrow> [] | c # cs \<Rightarrow> find_loop r (Some c) cs)
      | Some x \<Rightarrow>
          Match (take (length s - length (snd (snd x))) s) (fst x) #
            (if length (snd (snd x)) < length s
             then find_loop r (fst (snd x)) (snd (snd x))
             else (case s of [] \<Rightarrow> [] | c # cs \<Rightarrow> find_loop r (Some c) cs)))"
  by pat_completeness auto
termination
  by (relation "measure (\<lambda>(r, p, s). length s)") auto

definition finditer :: "regex \<Rightarrow> string \<Rightarrow> rmatch list" where
  "finditer r text = find_loop r None text"

fun seq :: "regex list \<Rightarrow> regex" where
  "seq [] = Eps"
| "seq [r] = r"
| "seq (r # rs) = Seq r (seq rs)"

definition lits :: "string \<Rightarrow> regex" where
  "lits s = seq (map Lit s)"

section \<open>Correction rules\<close>

text \<open>
  A compiled pattern: its source text (\<open>pat.pattern\<close>) and its program. A rule is
  \<open>(pattern, replacement, label)\<close>. The labels are display text; their arrows are
  written \<open>->\<close> and \<open><->\<close> here.
\<close>

datatype pattern = Pattern (pattern_src: string) (prog: regex)

type_synonym rule = "pattern \<times> string \<times> string"

definition RULES :: "rule list" where
  "RULES =
    [(Pattern ''0002B'' (lits ''0002B''), ''00028'', ''0002B -> 00028  [B<->8]''),
     (Pattern ''OOI'' (lits ''OOI''), ''001'', ''OOI -> 001      [O=0, I=1]''),
     (Pattern ''PR[I1l]{1,2}'' (seq [Lit CHR ''P'', Lit CHR ''R'', Rep (Cls ''I1l'') 1 2]),
        ''PR1'', ''PR{I|II|1} -> PR1''),
     (Pattern ''IN[I1l]{1,2}'' (seq [Lit CHR ''I'', Lit CHR ''N'', Rep (Cls ''I1l'') 1 2]),
        ''IN1'', ''IN{I|II|1} -> IN1''),
     (Pattern ''GR[I1l]{1,2}'' (seq [Lit CHR ''G'', Lit CHR ''R'', Rep (Cls ''I1l'') 1 2]),
        ''GR1'', ''GR{I|II|1} -> GR1''),
     (Pattern ''[1Il]N2'' (seq [Cls ''1Il'', Lit CHR ''N'', Lit CHR ''2'']),
        ''IN2'', ''[1/I]N2 -> IN2''),
     (Pattern ''[1Il]N1'' (seq [Cls ''1Il'', Lit CHR ''N'', Lit CHR ''1'']),
        ''IN1'', ''[1/I]N1 -> IN1''),
     (Pattern ''P[I1]E'' (seq [Lit CHR ''P'', Cls ''I1'', Lit CHR ''E'']),
        ''PLE'', ''P[I/1]E -> PLE  [I=L, 1=L]''),
     (Pattern ''028'' (lits ''028''), ''02B'', ''028 -> 02B       [8=B]''),
     (Pattern ''040'' (lits ''040''), ''04C'', ''040 -> 04C       [0=C]''),
     (Pattern ''0P(?=[^0-9])''
        (seq [Lit CHR ''0'', Lit CHR ''P'', Ahead (NCls ''0123456789'')]),
        ''OP'', ''0P -> OP         [O over-zeroed]''),
     (Pattern ''0TH'' (lits ''0TH''), ''OTH'', ''0TH -> OTH       [O over-zeroed]'')]"

section \<open>Document identifiers\<close>

text \<open>
  \<open>(?<!\w)(\d{2,6})-([\w]{2,4})-([\w]{2,5})-([\w]{2,3})-([\w]{2,5})-([\w]{2,5})-([\w]{4,6})(?!\w)\<close>
\<close>

definition DOC_ID_RE :: regex where
  "DOC_ID_RE =
     seq [NotBehind Word,
          Grp (Rep Digit 2 6),
          Lit CHR ''-'', Grp (Rep Word 2 4),
          Lit CHR ''-'', Grp (Rep Word 2 5),
          Lit CHR ''-'', Grp (Rep Word 2 3),
          Lit CHR ''-'', Grp (Rep Word 2 5),
          Lit CHR ''-'', Grp (Rep Word 2 5),
          Lit CHR ''-'', Grp (Rep Word 4 6),
          NotAhead Word]"

definition SEG_TYPE :: "string list" where
  "SEG_TYPE = [''D'', ''M'', ''M'', ''M'', ''M'', ''M'', ''D'']"

definition fix_digit_seg :: "string \<Rightarrow> string" where
  "fix_digit_seg s =
     str_replace ''L'' ''1'' (str_replace ''l'' ''1'' (str_replace ''I'' ''1''
       (str_replace ''o'' ''0'' (str_replace ''O'' ''0'' s))))"

text \<open>
  The loop of \<open>_fix_doc_id\<close> over \<open>zip(segs_raw, SEG_TYPE)\<close>, with the accumulators
  \<open>segs_fix\<close> and \<open>changes\<close>.
\<close>

fun fix_segs ::
  "(string \<times> string) list \<Rightarrow> string list \<times> (string \<times> string) list
     \<Rightarrow> string list \<times> (string \<times> string) list" where
  "fix_segs [] acc = acc"
| "fix_segs ((raw, kind) # rest) (segs_fix, changes) =
     (let fixed = (if kind = ''D'' then fix_digit_seg raw else raw)
      in fix_segs rest
           (segs_fix @ [fixed], if fixed \<noteq> raw then changes @ [(raw, fixed)] else changes))"

definition fix_doc_id :: "rmatch \<Rightarrow> string \<times> (string \<times> string) list" where
  "fix_doc_id m =
     (case fix_segs (zip (groups m) SEG_TYPE) ([], []) of
        (segs_fix, changes) \<Rightarrow> (str_join ''-'' segs_fix, changes))"

section \<open>The correction engine\<close>

record corrector =
  page :: nat
  rule_hits :: "(string \<times> string \<times> string \<times> nat) list"
  id_changes :: "(string \<times> string \<times> (string \<times> string) list) list"
  total_fixes :: nat

definition PageCorrector :: "nat \<Rightarrow> corrector" where
  "PageCorrector page_num =
     \<lparr>page = page_num, rule_hits = [], id_changes = [], total_fixes = 0\<rparr>"

text \<open>Pass 1: the loop of \<open>_apply_rules\<close> over the rule table.\<close>

fun apply_rules_loop :: "rule list \<Rightarrow> corrector \<Rightarrow> string \<Rightarrow> string \<times> corrector" where
  "apply_rules_loop [] self text = (text, self)"
| "apply_rules_loop ((pat, repl, label) # rest) self text =
     (case subn (prog pat) repl text of
        (new_text, n) \<Rightarrow>
          if n \<noteq> 0
          then apply_rules_loop rest
                 (self\<lparr>rule_hits := rule_hits self @ [(pattern_src pat, repl, label, n)],
                       total_fixes := total_fixes self + n\<rparr>)
                 new_text
          else apply_rules_loop rest self text)"

definition apply_rules :: "corrector \<Rightarrow> string \<Rightarrow> string \<times> corrector" where
  "apply_rules self text = apply_rules_loop RULES self text"

text \<open>Pass 2: the callback \<open>_sub\<close> of \<open>_apply_id_fixes\<close> and the substitution.\<close>

definition id_sub :: "corrector \<Rightarrow> rmatch \<Rightarrow> string \<times> corrector" where
  "id_sub self m =
     (let raw_id = group0 m
      in case fix_doc_id m of
           (fixed_id, seg_changes) \<Rightarrow>
             (fixed_id,
              if fixed_id \<noteq> raw_id
              then self\<lparr>id_changes := id_changes self @ [(raw_id, fixed_id, seg_changes)],
                        total_fixes := total_fixes self + 1\<rparr>
              else self))"

definition apply_id_fixes :: "corrector \<Rightarrow> string \<Rightarrow> string \<times> corrector" where
  "apply_id_fixes self text = sub_with DOC_ID_RE id_sub self text"

definition correct :: "corrector \<Rightarrow> string \<Rightarrow> string \<times> corrector" where
  "correct self text =
     (case apply_rules self text of (text1, self1) \<Rightarrow> apply_id_fixes self1 text1)"

section \<open>PDF assembly\<close>












definition font_size :: real where "font_size = 10"
definition line_h :: real where "line_h = font_size * (14 / 10)"
definition margin_y :: real where "margin_y = 20"











section \<open>Notions used in the statements\<close>

text \<open>The least number of characters a match of \<open>r\<close> consumes.\<close>

fun minlen :: "regex \<Rightarrow> nat" where
  "minlen (Lit a) = 1"
| "minlen (Cls cs) = 1"
| "minlen (NCls cs) = 1"
| "minlen Digit = 1"
| "minlen Word = 1"
| "minlen (Seq a b) = minlen a + minlen b"
| "minlen (Rep r lo hi) = lo * minlen r"
| "minlen (Grp r) = minlen r"
| "minlen _ = 0"

text \<open>
  The number of groups of a pattern, and the patterns with no group inside a repeat
  (every group is then captured exactly once).
\<close>

fun ngroups :: "regex \<Rightarrow> nat" where
  "ngroups (Seq a b) = ngroups a + ngroups b"
| "ngroups (Grp r) = Suc (ngroups r)"
| "ngroups _ = 0"

fun flat :: "regex \<Rightarrow> bool" where
  "flat (Seq a b) = (flat a \<and> flat b)"
| "flat (Grp r) = flat r"
| "flat (Rep r lo hi) = (ngroups r = 0 \<and> flat r)"
| "flat _ = True"

text \<open>
  The character-level fix of a digit field in the words of the specification: O and o
  become 0; I, l and L become 1; every other character stays.
\<close>

definition digit_char :: "char \<Rightarrow> char" where
  "digit_char c =
     (if c = CHR ''O'' \<or> c = CHR ''o'' then CHR ''0''
      else if c = CHR ''I'' \<or> c = CHR ''l'' \<or> c = CHR ''L'' then CHR ''1''
      else c)"

text \<open>The fields of a match after the loop of \<open>_fix_doc_id\<close>.\<close>

definition segs_fix :: "rmatch \<Rightarrow> string list" where
  "segs_fix m = fst (fix_segs (zip (groups m) SEG_TYPE) ([], []))"

text \<open>
  An identifier match is changed when its reassembled form differs from the raw
  match; \<open>id_entry\<close> is the \<open>IdentifierChange\<close> recorded for it.
\<close>

definition id_changed :: "rmatch \<Rightarrow> bool" where
  "id_changed m = (fst (fix_doc_id m) \<noteq> group0 m)"

definition id_entry :: "rmatch \<Rightarrow> string \<times> string \<times> (string \<times> string) list" where
  "id_entry m = (group0 m, fst (fix_doc_id m), snd (fix_doc_id m))"

text \<open>
  Rule application in the words of the specification: rule \<open>k\<close> scans the output of
  the rules before it, and a rule is reported, with its count, when the count is not
  zero.
\<close>

fun applyRules_text :: "rule list \<Rightarrow> string \<Rightarrow> string" where
  "applyRules_text [] text = text"
| "applyRules_text ((pat, repl, label) # rest) text =
     applyRules_text rest (fst (subn (prog pat) repl text))"

fun applyRules_hits :: "rule list \<Rightarrow> string \<Rightarrow> (string \<times> string \<times> string \<times> nat) list" where
  "applyRules_hits [] text = []"
| "applyRules_hits ((pat, repl, label) # rest) text =
     (let n = length (finditer (prog pat) text)
      in (if n = 0 then [] else [(pattern_src pat, repl, label, n)]) @
         applyRules_hits rest (fst (subn (prog pat) repl text)))"

definition hit_count :: "string \<times> string \<times> string \<times> nat \<Rightarrow> nat" where
  "hit_count h = snd (snd (snd h))"


text \<open>
  The vertical position of line \<open>i\<close> at pitch \<open>step\<close>, whether it is above the bottom
  margin of a page of height \<open>h_pt\<close>, and the text inserted for it.
\<close>

definition line_y :: "real \<Rightarrow> nat \<Rightarrow> real" where
  "line_y step i = margin_y + real i * step + font_size"

definition fits :: "real \<Rightarrow> real \<Rightarrow> nat \<Rightarrow> bool" where
  "fits h_pt step i = (line_y step i \<le> h_pt - margin_y)"


section \<open>Properties of the string functions\<close>

lemma str_replace_single:
  "str_replace [a] [b] s = map (\<lambda>c. if c = a then b else c) s"
  by (induction s) auto

lemma fix_digit_seg_map: "fix_digit_seg s = map digit_char s"
  by (simp add: fix_digit_seg_def str_replace_single digit_char_def)

lemma digit_char_idem: "digit_char (digit_char c) = digit_char c"
  by (simp add: digit_char_def)

section \<open>Properties of the matcher\<close>

lemma one_step:
  "st' \<in> set (one P st) \<Longrightarrow> \<exists>c. snd (snd st) = c # snd (snd st') \<and> P c \<and> fst st' = fst st"
  by (auto simp: one_def split: prod.splits list.splits if_splits)

text \<open>A match ends inside the text it started in.\<close>

lemma ms_suffix:
  "st' \<in> set (ms r st) \<Longrightarrow> \<exists>u. snd (snd st) = u @ snd (snd st')"
proof (induction r st arbitrary: st' rule: ms.induct)
  case (7 a b st)
  from "7.prems" obtain x where x: "x \<in> set (ms a st)" and st': "st' \<in> set (ms b x)"
    by auto
  from "7.IH"(1) [OF x] obtain u where u: "snd (snd st) = u @ snd (snd x)" by blast
  from "7.IH"(2) [OF x st'] obtain v where "snd (snd x) = v @ snd (snd st')" by blast
  with u have "snd (snd st) = (u @ v) @ snd (snd st')" by simp
  then show ?case by blast
next
  case (9 r lo hi st)
  from "9.prems" consider
    (more) x where "x \<in> set (ms r st)" "st' \<in> set (ms (Rep r (lo - 1) hi) x)"
    | (stop) "st' = st"
    by (auto split: if_splits)
  then show ?case
  proof cases
    case more
    from "9.IH"(1) [OF more(1)] obtain u where u: "snd (snd st) = u @ snd (snd x)" by blast
    from "9.IH"(2) [OF more] obtain v where "snd (snd x) = v @ snd (snd st')" by blast
    with u have "snd (snd st) = (u @ v) @ snd (snd st')" by simp
    then show ?thesis by blast
  next
    case stop
    then show ?thesis by simp
  qed
next
  case (10 r st)
  then show ?case by auto
qed (auto dest!: one_step split: if_splits option.splits)

lemma ms_take_drop:
  assumes "st' \<in> set (ms r st)"
  shows "take (length (snd (snd st)) - length (snd (snd st'))) (snd (snd st)) @ snd (snd st')
           = snd (snd st)"
proof -
  from ms_suffix [OF assms] obtain u where "snd (snd st) = u @ snd (snd st')" by blast
  then show ?thesis by simp
qed

text \<open>A match consumes at least \<open>minlen r\<close> characters.\<close>

lemma ms_minlen:
  "st' \<in> set (ms r st) \<Longrightarrow> length (snd (snd st')) + minlen r \<le> length (snd (snd st))"
proof (induction r st arbitrary: st' rule: ms.induct)
  case (7 a b st)
  from "7.prems" obtain x where x: "x \<in> set (ms a st)" and st': "st' \<in> set (ms b x)"
    by auto
  from "7.IH"(1) [OF x] "7.IH"(2) [OF x st'] show ?case by simp
next
  case (8 r lo st)
  then show ?case by (auto split: if_splits)
next
  case (9 r lo hi st)
  from "9.prems" consider
    (more) x where "x \<in> set (ms r st)" "st' \<in> set (ms (Rep r (lo - 1) hi) x)"
    | (stop) "st' = st" "lo = 0"
    by (auto split: if_splits)
  then show ?case
  proof cases
    case more
    from "9.IH"(1) [OF more(1)] "9.IH"(2) [OF more]
    have "length (snd (snd st')) + (lo - 1) * minlen r + minlen r \<le> length (snd (snd st))"
      by simp
    moreover have "lo * minlen r \<le> (lo - 1) * minlen r + minlen r"
      by (cases lo) simp_all
    ultimately show ?thesis by simp
  next
    case stop
    then show ?thesis by simp
  qed
next
  case (10 r st)
  then show ?case by auto
qed (auto dest!: one_step split: if_splits option.splits)

text \<open>A pattern with no group inside a repeat captures each of its groups once.\<close>

lemma ms_caps:
  "flat r \<Longrightarrow> st' \<in> set (ms r st) \<Longrightarrow> length (fst st') = length (fst st) + ngroups r"
proof (induction r st arbitrary: st' rule: ms.induct)
  case (7 a b st)
  from "7.prems" obtain x where x: "x \<in> set (ms a st)" and st': "st' \<in> set (ms b x)"
    by auto
  from "7.prems"(1) have "flat a" "flat b" by simp_all
  from "7.IH"(1) [OF \<open>flat a\<close> x] "7.IH"(2) [OF x \<open>flat b\<close> st'] show ?case by simp
next
  case (8 r lo st)
  then show ?case by (auto split: if_splits)
next
  case (9 r lo hi st)
  from "9.prems"(1) have fl: "flat r" "ngroups r = 0" "flat (Rep r (lo - 1) hi)" by simp_all
  from "9.prems"(2) consider
    (more) x where "x \<in> set (ms r st)" "st' \<in> set (ms (Rep r (lo - 1) hi) x)"
    | (stop) "st' = st"
    by (auto split: if_splits)
  then show ?case
  proof cases
    case more
    from "9.IH"(1) [OF fl(1) more(1)] "9.IH"(2) [OF more(1) fl(3) more(2)] fl(2)
    show ?thesis by simp
  next
    case stop
    then show ?thesis by simp
  qed
next
  case (10 r st)
  then show ?case by auto
qed (auto dest!: one_step split: if_splits option.splits)

section \<open>Properties of the scan\<close>

declare sub_loop.simps [simp del] find_loop.simps [simp del]

lemma match_at_SomeD: "match_at r p s = Some x \<Longrightarrow> x \<in> set (ms r ([], p, s))"
  by (auto simp: match_at_def split: list.splits)

lemma find_loop_None:
  "match_at r p s = None \<Longrightarrow>
     find_loop r p s = (case s of [] \<Rightarrow> [] | c # cs \<Rightarrow> find_loop r (Some c) cs)"
  by (subst find_loop.simps) simp

lemma find_loop_Some:
  "match_at r p s = Some x \<Longrightarrow>
     find_loop r p s =
       Match (take (length s - length (snd (snd x))) s) (fst x) #
         (if length (snd (snd x)) < length s
          then find_loop r (fst (snd x)) (snd (snd x))
          else (case s of [] \<Rightarrow> [] | c # cs \<Rightarrow> find_loop r (Some c) cs))"
  by (subst find_loop.simps) simp

lemma sub_loop_None:
  "match_at r p s = None \<Longrightarrow>
     sub_loop r cb st p s =
       (case s of
          [] \<Rightarrow> ([], 0, st)
        | c # cs \<Rightarrow> (case sub_loop r cb st (Some c) cs of (out, n, st') \<Rightarrow> (c # out, n, st')))"
  by (subst sub_loop.simps) simp

lemma sub_loop_Some:
  "match_at r p s = Some x \<Longrightarrow>
     cb st (Match (take (length s - length (snd (snd x))) s) (fst x)) = (rep, st1) \<Longrightarrow>
     sub_loop r cb st p s =
       (if length (snd (snd x)) < length s
        then (case sub_loop r cb st1 (fst (snd x)) (snd (snd x)) of
                (out, n, st2) \<Rightarrow> (rep @ out, Suc n, st2))
        else (case s of
                [] \<Rightarrow> (rep, 1, st1)
              | c # cs \<Rightarrow>
                  (case sub_loop r cb st1 (Some c) cs of
                     (out, n, st2) \<Rightarrow> (rep @ c # out, Suc n, st2))))"
  by (subst sub_loop.simps) simp

lemma find_loop_mem:
  "m \<in> set (find_loop r p s) \<Longrightarrow>
     \<exists>p' s' x. x \<in> set (ms r ([], p', s')) \<and>
       m = Match (take (length s' - length (snd (snd x))) s') (fst x)"
proof (induction r p s rule: find_loop.induct)
  case (1 r p s)
  show ?case
  proof (cases "match_at r p s")
    case None
    from "1.prems" find_loop_None [OF None] obtain c cs where
      "s = c # cs" "m \<in> set (find_loop r (Some c) cs)"
      by (cases s) auto
    with "1.IH"(1) [OF None] show ?thesis by blast
  next
    case (Some x)
    note x = match_at_SomeD [OF Some]
    from "1.prems" find_loop_Some [OF Some] consider
      (here) "m = Match (take (length s - length (snd (snd x))) s) (fst x)"
      | (behind) "length (snd (snd x)) < length s"
          "m \<in> set (find_loop r (fst (snd x)) (snd (snd x)))"
      | (skip) c cs where "\<not> length (snd (snd x)) < length s" "s = c # cs"
          "m \<in> set (find_loop r (Some c) cs)"
      by (cases s) (auto split: if_splits)
    then show ?thesis
    proof cases
      case here
      with x show ?thesis by blast
    next
      case behind
      with "1.IH"(2) [OF Some] show ?thesis by blast
    next
      case skip
      with "1.IH"(3) [OF Some] show ?thesis by blast
    qed
  qed
qed

lemma sub_loop_find:
  "sub_loop r cb st p s = (out, n, st') \<Longrightarrow>
     n = length (find_loop r p s) \<and>
     st' = foldl (\<lambda>a m. snd (cb a m)) st (find_loop r p s)"
proof (induction r cb st p s arbitrary: out n st' rule: sub_loop.induct)
  case (1 r cb st p s)
  show ?case
  proof (cases "match_at r p s")
    case None
    note sl = sub_loop_None [OF None, of cb st] and fl = find_loop_None [OF None]
    show ?thesis
    proof (cases s)
      case Nil
      with sl fl "1.prems" show ?thesis by simp
    next
      case (Cons c cs)
      obtain out1 n1 st1 where rec: "sub_loop r cb st (Some c) cs = (out1, n1, st1)"
        by (cases "sub_loop r cb st (Some c) cs") auto
      with sl Cons "1.prems" have "n = n1" "st' = st1" by auto
      with "1.IH"(1) [OF None Cons rec] fl Cons show ?thesis by simp
    qed
  next
    case (Some x)
    define m where "m = Match (take (length s - length (snd (snd x))) s) (fst x)"
    obtain rep st1 where cb: "cb st m = (rep, st1)" by (cases "cb st m") auto
    have sl: "sub_loop r cb st p s =
       (if length (snd (snd x)) < length s
        then (case sub_loop r cb st1 (fst (snd x)) (snd (snd x)) of
                (out, n, st2) \<Rightarrow> (rep @ out, Suc n, st2))
        else (case s of
                [] \<Rightarrow> (rep, 1, st1)
              | c # cs \<Rightarrow>
                  (case sub_loop r cb st1 (Some c) cs of
                     (out, n, st2) \<Rightarrow> (rep @ c # out, Suc n, st2))))"
      using Some cb unfolding m_def by (rule sub_loop_Some)
    note fl = find_loop_Some [OF Some, folded m_def]
    show ?thesis
    proof (cases "length (snd (snd x)) < length s")
      case True
      obtain out1 n1 st2 where
        rec: "sub_loop r cb st1 (fst (snd x)) (snd (snd x)) = (out1, n1, st2)"
        by (cases "sub_loop r cb st1 (fst (snd x)) (snd (snd x))") auto
      with sl True "1.prems" have "n = Suc n1" "st' = st2" by auto
      with "1.IH"(2) [OF Some cb [unfolded m_def, symmetric] True rec] fl True cb
      show ?thesis by simp
    next
      case False
      show ?thesis
      proof (cases s)
        case Nil
        with sl fl cb False "1.prems" show ?thesis by auto
      next
        case (Cons c cs)
        obtain out1 n1 st2 where rec: "sub_loop r cb st1 (Some c) cs = (out1, n1, st2)"
          by (cases "sub_loop r cb st1 (Some c) cs") auto
        with sl False Cons "1.prems" have "n = Suc n1" "st' = st2" by auto
        with "1.IH"(3) [OF Some cb [unfolded m_def, symmetric] False Cons rec]
          fl False Cons cb
        show ?thesis by simp
      qed
    qed
  qed
qed


section \<open>The digit-field fix\<close>

text \<open>
  C10. The digit-field fix is idempotent: applying \<open>_fix_digit_seg\<close> to its own output
  changes nothing, because the output contains none of the characters O, o, I, l, L.
\<close>

theorem fix_digit_seg_idempotent:
  "fix_digit_seg (fix_digit_seg s) = fix_digit_seg s \<and>
   set (fix_digit_seg s) \<inter> set ''OoIlL'' = {}"
proof
  show "fix_digit_seg (fix_digit_seg s) = fix_digit_seg s"
    by (simp add: fix_digit_seg_map digit_char_idem)
  show "set (fix_digit_seg s) \<inter> set ''OoIlL'' = {}"
    by (auto simp: fix_digit_seg_map digit_char_def split: if_splits)
qed

section \<open>Identifier reconstruction\<close>

lemma find_loop_groups:
  assumes "flat r" "m \<in> set (find_loop r p s)"
  shows "length (groups m) = ngroups r"
proof -
  from find_loop_mem [OF assms(2)] obtain p' s' x where
    x: "x \<in> set (ms r ([], p', s'))"
    and m: "m = Match (take (length s' - length (snd (snd x))) s') (fst x)"
    by blast
  from ms_caps [OF assms(1) x] m show ?thesis by simp
qed

lemma doc_id_groups:
  "m \<in> set (finditer DOC_ID_RE text) \<Longrightarrow> length (groups m) = 7"
  using find_loop_groups [of DOC_ID_RE m None "text"]
  by (simp add: finditer_def DOC_ID_RE_def)

lemma seven_fields:
  "length xs = 7 \<Longrightarrow> \<exists>g1 g2 g3 g4 g5 g6 g7. xs = [g1, g2, g3, g4, g5, g6, g7]"
  by (auto simp: numeral_eq_Suc length_Suc_conv)

lemma fix_segs_seven:
  "fix_segs (zip [g1, g2, g3, g4, g5, g6, g7] SEG_TYPE) ([], []) =
     ([fix_digit_seg g1, g2, g3, g4, g5, g6, fix_digit_seg g7],
      (if fix_digit_seg g1 \<noteq> g1 then [(g1, fix_digit_seg g1)] else []) @
      (if fix_digit_seg g7 \<noteq> g7 then [(g7, fix_digit_seg g7)] else []))"
  by (simp add: SEG_TYPE_def Let_def)

text \<open>
  C5. For every identifier match, each field classified Digit (\<open>D\<close> in \<open>SEG_TYPE\<close>)
  is rewritten character by character: O and o become 0; I, l and L become 1, wherever
  they stand in the field, and every other character of the field stays as it is.
\<close>

theorem digit_fields_rewritten:
  assumes "m \<in> set (finditer DOC_ID_RE text)"
    and "i < length SEG_TYPE" and "SEG_TYPE ! i = ''D''"
  shows "length (segs_fix m) = length (groups m) \<and>
         segs_fix m ! i = map digit_char (groups m ! i) \<and>
         fst (fix_doc_id m) = str_join ''-'' (segs_fix m)"
proof -
  from seven_fields [OF doc_id_groups [OF assms(1)]] obtain g1 g2 g3 g4 g5 g6 g7
    where g: "groups m = [g1, g2, g3, g4, g5, g6, g7]" by blast
  from assms(2,3) have "i = 0 \<or> i = 6"
    by (auto simp: SEG_TYPE_def nth_Cons split: nat.splits)
  with g show ?thesis
    by (auto simp: segs_fix_def fix_doc_id_def fix_segs_seven fix_digit_seg_map)
qed

theorem digit_fields_rewritten_witness:
  "Match ''26437-RIA-001-DR-CLG-PC-O0l05''
         [''26437'', ''RIA'', ''001'', ''DR'', ''CLG'', ''PC'', ''O0l05'']
     \<in> set (finditer DOC_ID_RE ''Sheet 26437-RIA-001-DR-CLG-PC-O0l05.'') \<and>
   6 < length SEG_TYPE \<and> SEG_TYPE ! 6 = ''D'' \<and>
   segs_fix (Match ''26437-RIA-001-DR-CLG-PC-O0l05''
         [''26437'', ''RIA'', ''001'', ''DR'', ''CLG'', ''PC'', ''O0l05'']) ! 6 = ''00105''"
proof -
  let ?m = "Match ''26437-RIA-001-DR-CLG-PC-O0l05''
         [''26437'', ''RIA'', ''001'', ''DR'', ''CLG'', ''PC'', ''O0l05'']"
  have h1: "?m \<in> set (finditer DOC_ID_RE ''Sheet 26437-RIA-001-DR-CLG-PC-O0l05.'')"
    by code_simp
  have h2: "6 < length SEG_TYPE" by (simp add: SEG_TYPE_def)
  have h3: "SEG_TYPE ! 6 = ''D''" by (simp add: SEG_TYPE_def)
  from digit_fields_rewritten [OF h1 h2 h3]
  have "segs_fix ?m ! 6 = map digit_char (groups ?m ! 6)" by blast
  also have "\<dots> = ''00105''" by (simp add: digit_char_def)
  finally show ?thesis using h1 h2 h3 by blast
qed

text \<open>
  C6. For every identifier match, the fields classified Mixed (\<open>M\<close> in \<open>SEG_TYPE\<close>,
  fields 2 to 6) stand verbatim in the reconstructed identifier, for example an org code
  \<open>8lR\<close>; the reconstruction changes only fields 1 and 7, and only those can appear in
  the list of field changes.
\<close>

theorem mixed_fields_verbatim:
  assumes "m \<in> set (finditer DOC_ID_RE text)"
  shows "\<exists>g1 g2 g3 g4 g5 g6 g7.
           groups m = [g1, g2, g3, g4, g5, g6, g7] \<and>
           fix_doc_id m =
             (str_join ''-'' [fix_digit_seg g1, g2, g3, g4, g5, g6, fix_digit_seg g7],
              (if fix_digit_seg g1 \<noteq> g1 then [(g1, fix_digit_seg g1)] else []) @
              (if fix_digit_seg g7 \<noteq> g7 then [(g7, fix_digit_seg g7)] else [])) \<and>
           (\<forall>i < 7. SEG_TYPE ! i = ''M'' \<longleftrightarrow> 1 \<le> i \<and> i \<le> 5) \<and>
           (\<forall>i < 7. SEG_TYPE ! i = ''M'' \<longrightarrow> segs_fix m ! i = groups m ! i)"
proof -
  from seven_fields [OF doc_id_groups [OF assms(1)]] obtain g1 g2 g3 g4 g5 g6 g7
    where g: "groups m = [g1, g2, g3, g4, g5, g6, g7]" by blast
  have cls: "SEG_TYPE ! i = ''M'' \<longleftrightarrow> 1 \<le> i \<and> i \<le> 5" if "i < 7" for i
  proof -
    from that have "i \<in> {0, 1, 2, 3, 4, 5, 6}" by auto
    then show ?thesis by (auto simp: SEG_TYPE_def)
  qed
  have keep: "segs_fix m ! i = groups m ! i" if "i < 7" "SEG_TYPE ! i = ''M''" for i
  proof -
    from that cls have "i \<in> {1, 2, 3, 4, 5}" by auto
    then show ?thesis by (auto simp: segs_fix_def g fix_segs_seven)
  qed
  from g cls keep show ?thesis
    by (simp add: fix_doc_id_def fix_segs_seven)
qed

theorem mixed_fields_verbatim_witness:
  "Match ''26437-8lR-001-DR-CLG-PC-0O2I5''
         [''26437'', ''8lR'', ''001'', ''DR'', ''CLG'', ''PC'', ''0O2I5'']
     \<in> set (finditer DOC_ID_RE ''26437-8lR-001-DR-CLG-PC-0O2I5'') \<and>
   fix_doc_id (Match ''26437-8lR-001-DR-CLG-PC-0O2I5''
         [''26437'', ''8lR'', ''001'', ''DR'', ''CLG'', ''PC'', ''0O2I5'']) =
     (''26437-8lR-001-DR-CLG-PC-00215'', [(''0O2I5'', ''00215'')])"
proof -
  let ?m = "Match ''26437-8lR-001-DR-CLG-PC-0O2I5''
         [''26437'', ''8lR'', ''001'', ''DR'', ''CLG'', ''PC'', ''0O2I5'']"
  have h: "?m \<in> set (finditer DOC_ID_RE ''26437-8lR-001-DR-CLG-PC-0O2I5'')"
    by code_simp
  from mixed_fields_verbatim [OF h] obtain g1 g2 g3 g4 g5 g6 g7 where
    g: "groups ?m = [g1, g2, g3, g4, g5, g6, g7]" and
    f: "fix_doc_id ?m =
             (str_join ''-'' [fix_digit_seg g1, g2, g3, g4, g5, g6, fix_digit_seg g7],
              (if fix_digit_seg g1 \<noteq> g1 then [(g1, fix_digit_seg g1)] else []) @
              (if fix_digit_seg g7 \<noteq> g7 then [(g7, fix_digit_seg g7)] else []))"
    by blast
  from g have "g1 = ''26437''" "g2 = ''8lR''" "g3 = ''001''" "g4 = ''DR''" "g5 = ''CLG''"
    "g6 = ''PC''" "g7 = ''0O2I5''" by simp_all
  with f have "fix_doc_id ?m = (''26437-8lR-001-DR-CLG-PC-00215'', [(''0O2I5'', ''00215'')])"
    by (simp add: fix_digit_seg_map digit_char_def)
  with h show ?thesis by blast
qed

section \<open>Scans that change nothing\<close>

lemma sub_loop_count:
  "fst (snd (sub_loop r cb st p s)) = length (find_loop r p s)"
  using sub_loop_find [of r cb st p s] by (cases "sub_loop r cb st p s") auto

lemma sub_loop_state:
  "snd (snd (sub_loop r cb st p s)) = foldl (\<lambda>a m. snd (cb a m)) st (find_loop r p s)"
  using sub_loop_find [of r cb st p s] by (cases "sub_loop r cb st p s") auto

text \<open>
  A scan in which every replacement is the matched text itself returns the text as it
  was.
\<close>

lemma sub_loop_same:
  "(\<And>m a. m \<in> set (find_loop r p s) \<Longrightarrow> fst (cb a m) = group0 m) \<Longrightarrow>
     fst (sub_loop r cb st p s) = s"
proof (induction r cb st p s rule: sub_loop.induct)
  case (1 r cb st p s)
  show ?case
  proof (cases "match_at r p s")
    case None
    note sl = sub_loop_None [OF None, of cb st] and fl = find_loop_None [OF None]
    show ?thesis
    proof (cases s)
      case Nil
      with sl show ?thesis by simp
    next
      case (Cons c cs)
      have "fst (sub_loop r cb st (Some c) cs) = cs"
      proof (rule "1.IH"(1) [OF None Cons])
        fix m a assume "m \<in> set (find_loop r (Some c) cs)"
        with fl Cons have "m \<in> set (find_loop r p s)" by simp
        then show "fst (cb a m) = group0 m" by (rule "1.prems")
      qed
      with sl Cons show ?thesis by (simp split: prod.splits)
    qed
  next
    case (Some x)
    define m where "m = Match (take (length s - length (snd (snd x))) s) (fst x)"
    obtain rep st1 where cb: "cb st m = (rep, st1)" by (cases "cb st m") auto
    have sl: "sub_loop r cb st p s =
       (if length (snd (snd x)) < length s
        then (case sub_loop r cb st1 (fst (snd x)) (snd (snd x)) of
                (out, n, st2) \<Rightarrow> (rep @ out, Suc n, st2))
        else (case s of
                [] \<Rightarrow> (rep, 1, st1)
              | c # cs \<Rightarrow>
                  (case sub_loop r cb st1 (Some c) cs of
                     (out, n, st2) \<Rightarrow> (rep @ c # out, Suc n, st2))))"
      using Some cb unfolding m_def by (rule sub_loop_Some)
    note fl = find_loop_Some [OF Some, folded m_def]
    from fl have "m \<in> set (find_loop r p s)" by simp
    from "1.prems" [OF this, of st] cb have rep: "rep = take (length s - length (snd (snd x))) s"
      by (simp add: m_def)
    from ms_take_drop [OF match_at_SomeD [OF Some]]
    have split: "take (length s - length (snd (snd x))) s @ snd (snd x) = s" by simp
    show ?thesis
    proof (cases "length (snd (snd x)) < length s")
      case True
      have "fst (sub_loop r cb st1 (fst (snd x)) (snd (snd x))) = snd (snd x)"
      proof (rule "1.IH"(2) [OF Some cb [unfolded m_def, symmetric] True])
        fix m' a assume "m' \<in> set (find_loop r (fst (snd x)) (snd (snd x)))"
        with fl True have "m' \<in> set (find_loop r p s)" by simp
        then show "fst (cb a m') = group0 m'" by (rule "1.prems")
      qed
      with sl True rep split show ?thesis by (simp split: prod.splits)
    next
      case False
      show ?thesis
      proof (cases s)
        case Nil
        with sl False rep show ?thesis by simp
      next
        case (Cons c cs)
        have "fst (sub_loop r cb st1 (Some c) cs) = cs"
        proof (rule "1.IH"(3) [OF Some cb [unfolded m_def, symmetric] False Cons])
          fix m' a assume "m' \<in> set (find_loop r (Some c) cs)"
          with fl False Cons have "m' \<in> set (find_loop r p s)" by simp
          then show "fst (cb a m') = group0 m'" by (rule "1.prems")
        qed
        moreover from False Cons have "rep = []" by (simp add: rep)
        ultimately show ?thesis using sl False Cons by (simp split: prod.splits)
      qed
    qed
  qed
qed

lemma subn_alt:
  "subn r repl text =
     (fst (sub_loop r (\<lambda>st m. (repl, st)) () None text),
      fst (snd (sub_loop r (\<lambda>st m. (repl, st)) () None text)))"
  by (simp add: subn_def case_prod_beta)

lemma subn_count: "snd (subn r repl text) = length (finditer r text)"
  by (simp add: subn_alt sub_loop_count finditer_def)

text \<open>A rule that matches nowhere leaves the text as it was.\<close>

lemma subn_zero:
  assumes "snd (subn r repl text) = 0"
  shows "fst (subn r repl text) = text"
proof -
  from assms have "find_loop r None text = []"
    by (simp add: subn_count finditer_def)
  then have "fst (sub_loop r (\<lambda>st m. (repl, st)) () None text) = text"
    by (intro sub_loop_same) simp
  then show ?thesis by (simp add: subn_alt)
qed

lemma sub_with_alt:
  "sub_with r cb st text =
     (fst (sub_loop r cb st None text), snd (snd (sub_loop r cb st None text)))"
  by (simp add: sub_with_def case_prod_beta)

section \<open>Identifier changes in the report\<close>

lemma id_sub_alt:
  "id_sub self m =
     (fst (fix_doc_id m),
      if id_changed m
      then self\<lparr>id_changes := id_changes self @ [id_entry m],
                total_fixes := total_fixes self + 1\<rparr>
      else self)"
  by (simp add: id_sub_def id_changed_def id_entry_def case_prod_beta)

lemma id_sub_fold:
  "foldl (\<lambda>a m. snd (id_sub a m)) self xs =
     self\<lparr>id_changes := id_changes self @ map id_entry (filter id_changed xs),
          total_fixes := total_fixes self + length (filter id_changed xs)\<rparr>"
  by (induction xs arbitrary: self) (simp_all add: id_sub_alt)

lemma apply_id_fixes_state:
  "snd (apply_id_fixes self text) =
     self\<lparr>id_changes :=
            id_changes self @ map id_entry (filter id_changed (finditer DOC_ID_RE text)),
          total_fixes :=
            total_fixes self + length (filter id_changed (finditer DOC_ID_RE text))\<rparr>"
  by (simp add: apply_id_fixes_def sub_with_alt sub_loop_state id_sub_fold finditer_def)


text \<open>
  C7. An identifier match whose reassembled form differs from the raw match records
  exactly one identifier change and adds exactly one to the total-fix counter, however
  many of its fields changed; a match whose reassembled form is the raw text records
  nothing and leaves the counter as it was. Over a page, the counter grows by the
  number of changed matches and the list of identifier changes by their entries, in
  order.
\<close>

theorem identifier_change_counted:
  "id_sub self m =
     (fst (fix_doc_id m),
      if fst (fix_doc_id m) \<noteq> group0 m
      then self\<lparr>id_changes :=
                  id_changes self @ [(group0 m, fst (fix_doc_id m), snd (fix_doc_id m))],
                total_fixes := total_fixes self + 1\<rparr>
      else self) \<and>
   snd (apply_id_fixes self text) =
     self\<lparr>id_changes :=
            id_changes self @ map id_entry (filter id_changed (finditer DOC_ID_RE text)),
          total_fixes :=
            total_fixes self + length (filter id_changed (finditer DOC_ID_RE text))\<rparr>"
  using id_sub_alt [of self m] apply_id_fixes_state [of self "text"]
  by (simp add: id_changed_def id_entry_def)

section \<open>Rule application\<close>

lemma apply_rules_loop_spec:
  "apply_rules_loop rs self text =
     (applyRules_text rs text,
      self\<lparr>rule_hits := rule_hits self @ applyRules_hits rs text,
           total_fixes := total_fixes self + sum_list (map hit_count (applyRules_hits rs text))\<rparr>)"
proof (induction rs arbitrary: self "text")
  case Nil
  show ?case by simp
next
  case (Cons rule rs)
  obtain pat repl label where rule: "rule = (pat, repl, label)" by (cases rule) auto
  obtain new_text n where sn: "subn (prog pat) repl text = (new_text, n)"
    by (cases "subn (prog pat) repl text") auto
  from sn subn_count [of "prog pat" repl "text"]
  have n: "length (finditer (prog pat) text) = n" by simp
  show ?case
  proof (cases "n = 0")
    case True
    with sn subn_zero [of "prog pat" repl "text"] have "new_text = text" by simp
    with True sn n rule Cons.IH [of self "text"] show ?thesis by simp
  next
    case False
    with sn n rule
      Cons.IH [of "self\<lparr>rule_hits := rule_hits self @ [(pattern_src pat, repl, label, n)],
                       total_fixes := total_fixes self + n\<rparr>" new_text]
    show ?thesis by (simp add: hit_count_def)
  qed
qed

lemma applyRules_hits_pos: "h \<in> set (applyRules_hits rs text) \<Longrightarrow> 0 < hit_count h"
proof (induction rs arbitrary: "text")
  case Nil
  then show ?case by simp
next
  case (Cons rule rs)
  obtain pat repl label where rule: "rule = (pat, repl, label)" by (cases rule) auto
  from Cons.prems rule Cons.IH show ?case
    by (auto simp: Let_def hit_count_def split: if_splits)
qed

lemma applyRules_no_hits:
  "applyRules_hits rs text = [] \<Longrightarrow> applyRules_text rs text = text"
proof (induction rs arbitrary: "text")
  case Nil
  then show ?case by simp
next
  case (Cons rule rs)
  obtain pat repl label where rule: "rule = (pat, repl, label)" by (cases rule) auto
  from Cons.prems rule have z: "length (finditer (prog pat) text) = 0"
    and rest: "applyRules_hits rs (fst (subn (prog pat) repl text)) = []"
    by (auto simp: Let_def split: if_splits)
  from z have "fst (subn (prog pat) repl text) = text"
    by (intro subn_zero) (simp add: subn_count)
  with rest Cons.IH [of "text"] rule show ?case by simp
qed


text \<open>
  C8. Rule application is a total function of the text and never fails. The rules are
  applied in table order, each to the output of the rules before it; the count of a
  rule is the number of its non-overlapping matches; a rule with no match leaves the
  text as it was, adds nothing to the counter and has no entry in the report, so every
  entry has a positive count.
\<close>

theorem apply_rules_total_in_order:
  "apply_rules self text =
     (applyRules_text RULES text,
      self\<lparr>rule_hits := rule_hits self @ applyRules_hits RULES text,
           total_fixes :=
             total_fixes self + sum_list (map hit_count (applyRules_hits RULES text))\<rparr>) \<and>
   (\<forall>h \<in> set (applyRules_hits RULES text). 0 < hit_count h) \<and>
   snd (subn r repl t) = length (finditer r t) \<and>
   (snd (subn r repl t) = 0 \<longrightarrow> fst (subn r repl t) = t) \<and>
   (applyRules_hits RULES text = [] \<longrightarrow> apply_rules self text = (text, self))"
proof -
  have "apply_rules self text = (text, self)" if "applyRules_hits RULES text = []"
    using that applyRules_no_hits [OF that]
    by (simp add: apply_rules_def apply_rules_loop_spec)
  then show ?thesis
    by (simp add: apply_rules_def apply_rules_loop_spec applyRules_hits_pos subn_count
        subn_zero)
qed

theorem apply_rules_total_in_order_witness:
  "snd (subn (lits ''OOI'') ''001'' ''xPRIl 0002B'') = 0 \<and>
   fst (subn (lits ''OOI'') ''001'' ''xPRIl 0002B'') = ''xPRIl 0002B'' \<and>
   apply_rules (PageCorrector 1) ''xPRIl 0002B'' =
     (''xPR1 0002B'',
      \<lparr>page = 1,
       rule_hits = [(''0002B'', ''00028'', ''0002B -> 00028  [B<->8]'', 1),
                    (''PR[I1l]{1,2}'', ''PR1'', ''PR{I|II|1} -> PR1'', 1),
                    (''028'', ''02B'', ''028 -> 02B       [8=B]'', 1)],
       id_changes = [], total_fixes = 3\<rparr>) \<and>
   applyRules_hits RULES ''clean text'' = [] \<and>
   apply_rules (PageCorrector 1) ''clean text'' = (''clean text'', PageCorrector 1)"
proof -
  note inst1 = apply_rules_total_in_order
    [of "PageCorrector 1" "''xPRIl 0002B''" "lits ''OOI''" "''001''" "''xPRIl 0002B''"]
  note inst2 = apply_rules_total_in_order
    [of "PageCorrector 1" "''clean text''" "lits ''OOI''" "''001''" "''xPRIl 0002B''"]
  have z: "snd (subn (lits ''OOI'') ''001'' ''xPRIl 0002B'') = 0" by code_simp
  with inst1 have same: "fst (subn (lits ''OOI'') ''001'' ''xPRIl 0002B'') = ''xPRIl 0002B''"
    by blast
  have t: "applyRules_text RULES ''xPRIl 0002B'' = ''xPR1 0002B''" by code_simp
  have h: "applyRules_hits RULES ''xPRIl 0002B'' =
     [(''0002B'', ''00028'', ''0002B -> 00028  [B<->8]'', 1),
      (''PR[I1l]{1,2}'', ''PR1'', ''PR{I|II|1} -> PR1'', 1),
      (''028'', ''02B'', ''028 -> 02B       [8=B]'', 1)]" by code_simp
  from inst1 have "apply_rules (PageCorrector 1) ''xPRIl 0002B'' =
     (applyRules_text RULES ''xPRIl 0002B'',
      (PageCorrector 1)\<lparr>rule_hits := rule_hits (PageCorrector 1) @
             applyRules_hits RULES ''xPRIl 0002B'',
           total_fixes := total_fixes (PageCorrector 1) +
             sum_list (map hit_count (applyRules_hits RULES ''xPRIl 0002B''))\<rparr>)"
    by blast
  then have run: "apply_rules (PageCorrector 1) ''xPRIl 0002B'' =
     (''xPR1 0002B'',
      \<lparr>page = 1,
       rule_hits = [(''0002B'', ''00028'', ''0002B -> 00028  [B<->8]'', 1),
                    (''PR[I1l]{1,2}'', ''PR1'', ''PR{I|II|1} -> PR1'', 1),
                    (''028'', ''02B'', ''028 -> 02B       [8=B]'', 1)],
       id_changes = [], total_fixes = 3\<rparr>)"
    by (simp add: t h PageCorrector_def hit_count_def)
  have c: "applyRules_hits RULES ''clean text'' = []" by code_simp
  with inst2 have "apply_rules (PageCorrector 1) ''clean text'' = (''clean text'', PageCorrector 1)"
    by blast
  with z same run c show ?thesis by blast
qed

section \<open>The engine as a whole\<close>






text \<open>
  C2, as the code has it. For the text \<open>26437-RIA-OOI-DR-CLG-PC-O0205\<close> the engine
  returns \<open>26437-RIA-001-DR-CLG-PC-00205\<close>. Field 3 is repaired by the rule \<open>OOI\<close> and
  is reported as a rule hit; the identifier pass then sees \<open>26437-RIA-001-DR-CLG-PC-O0205\<close>
  and records one identifier change with one field edit, for field 7. Fields 2 and 4
  are untouched, and the counter is 2.
\<close>

theorem example_identifier_report:
  "correct (PageCorrector pg) ''26437-RIA-OOI-DR-CLG-PC-O0205'' =
     (''26437-RIA-001-DR-CLG-PC-00205'',
      \<lparr>page = pg,
       rule_hits = [(''OOI'', ''001'', ''OOI -> 001      [O=0, I=1]'', 1)],
       id_changes =
         [(''26437-RIA-001-DR-CLG-PC-O0205'', ''26437-RIA-001-DR-CLG-PC-00205'',
           [(''O0205'', ''00205'')])],
       total_fixes = 2\<rparr>)"
  by code_simp

text \<open>
  The counterexample to C2 as stated: the report holds one identifier field edit, not
  two.
\<close>

theorem example_identifier_one_field_edit:
  "length (concat (map (\<lambda>c. snd (snd c))
     (id_changes (snd (correct (PageCorrector 1) ''26437-RIA-OOI-DR-CLG-PC-O0205''))))) = 1 \<and>
   length (concat (map (\<lambda>c. snd (snd c))
     (id_changes (snd (correct (PageCorrector 1) ''26437-RIA-OOI-DR-CLG-PC-O0205''))))) \<noteq> 2"
  by code_simp

section \<open>The invisible text layer\<close>




text \<open>At the natural pitch every line is above the bottom margin.\<close>

lemma natural_all_fit:
  assumes "real n * line_h \<le> h_pt - margin_y * 2" and "i < n"
  shows "fits h_pt line_h i"
proof -
  from assms(2) have "real i + 1 \<le> real n" by simp
  then have "(real i + 1) * line_h \<le> real n * line_h"
    by (rule mult_right_mono) (simp add: line_h_def font_size_def)
  with assms(1) have "(real i + 1) * line_h \<le> h_pt - margin_y * 2" by simp
  then show ?thesis
    by (simp add: fits_def line_y_def line_h_def font_size_def margin_y_def algebra_simps)
qed




section \<open>The document synthesizer\<close>








section \<open>Matches are never empty\<close>

lemma rule_match_consumes:
  assumes "(pat, repl, label) \<in> set RULES" and "match_at (prog pat) p s = Some x"
  shows "length (snd (snd x)) < length s"
proof -
  from assms(1) have "0 < minlen (prog pat)"
    by (auto simp: RULES_def lits_def)
  with ms_minlen [OF match_at_SomeD [OF assms(2)]] show ?thesis by simp
qed

lemma doc_id_match_consumes:
  assumes "match_at DOC_ID_RE p s = Some x"
  shows "length (snd (snd x)) < length s"
proof -
  have "0 < minlen DOC_ID_RE" by (simp add: DOC_ID_RE_def)
  with ms_minlen [OF match_at_SomeD [OF assms]] show ?thesis by simp
qed

end
